theory Spec2Isabelle
  imports Main
begin

section \<open>PermissionsAndroid: the bridge to Android's runtime permissions\<close>

text \<open>
  The module \<^verbatim>\<open>Libraries/PermissionsAndroid/PermissionsAndroid.android.js\<close> wraps three
  callback-style methods of the native module \<^verbatim>\<open>AndroidPermissions\<close> in promises and, for
  \<^verbatim>\<open>requestPermissionWithRationale\<close>, puts a dialog of \<^verbatim>\<open>DialogManagerAndroid\<close> in front
  of the request. The model is an explicit world: the promises the module created, the
  callbacks it handed to native methods, and the chronological history of its effects.
  The native side is the input: a list of callback firings.
\<close>

subsection \<open>Promises\<close>

text \<open>
  The value a promise is rejected with: \<^verbatim>\<open>reject()\<close> passes \<^verbatim>\<open>undefined\<close>,
  \<^verbatim>\<open>reject(error)\<close> passes the native error (Flow type \<^verbatim>\<open>string\<close>).
\<close>

datatype reason = Undefined | Error string

datatype settled = Fulfilled bool | Rejected reason

text \<open>A promise is pending (\<open>None\<close>) or settled (\<open>Some\<close>); promises are numbered in creation order.\<close>

type_synonym promise = nat

subsection \<open>Native calls and the callbacks handed to them\<close>

record options =
  title :: "string option"
  message :: string

datatype native_call =
    AndroidPermissions_checkPermission string
  | AndroidPermissions_requestPermission string
  | AndroidPermissions_shouldShowRequestPermissionRationale string
  | DialogManagerAndroid_showAlert options

text \<open>
  The second and third argument of a native call, as closures with their captured variables:
  \<^item> \<open>Settle_pair p\<close>: lines 95-100 and 113-118, \<^verbatim>\<open>(perm, result) => resolve(result)\<close> and
    \<^verbatim>\<open>(error) => reject(error)\<close> of promise \<open>p\<close>;
  \<^item> \<open>Rationale_pair p permission title message\<close>: lines 142-161, the two callbacks given to
    \<^verbatim>\<open>shouldShowRequestPermissionRationale\<close> inside the executor of promise \<open>p\<close>;
  \<^item> \<open>Dialog_pair p permission\<close>: lines 149-153, the two callbacks given to the rationale dialog;
  \<^item> \<open>Not_callable\<close>: line 150, the two \<^verbatim>\<open>{}\<close> given to the second alert.
\<close>

datatype callbacks =
    Settle_pair promise
  | Rationale_pair promise string string string
  | Dialog_pair promise string
  | Not_callable

datatype effect = Invoked native_call | Settled promise settled

text \<open>
  \<open>PERMISSIONS\<close> is the instance field of lines 60-85. \<open>reactions\<close> holds the pairs \<open>(q, p)\<close>
  of line 135-137: \<^verbatim>\<open>q.then((granted) => resolve(granted)).catch((err) => reject(err))\<close> with
  \<^verbatim>\<open>resolve\<close>, \<^verbatim>\<open>reject\<close> those of \<open>p\<close>. \<open>jobs\<close> is the queue of reactions that are due.
  \<open>registered ! k\<close> are the callbacks of the \<open>k\<close>-th native call.
\<close>

record world =
  PERMISSIONS :: "(string \<times> string) list"
  promises :: "settled option list"
  reactions :: "(promise \<times> promise) list"
  jobs :: "(promise \<times> settled) list"
  registered :: "callbacks list"
  history :: "effect list"

definition new_Promise :: "world \<Rightarrow> promise \<times> world" where
  "new_Promise w = (length (promises w), w\<lparr>promises := promises w @ [None]\<rparr>)"

text \<open>
  \<^verbatim>\<open>resolve\<close> and \<^verbatim>\<open>reject\<close> of a promise: the first call settles it and makes its reactions
  due, every later call does nothing.
\<close>

definition settle :: "promise \<Rightarrow> settled \<Rightarrow> world \<Rightarrow> world" where
  "settle p v w =
     (if p < length (promises w) \<and> promises w ! p = None
      then w\<lparr>promises := (promises w)[p := Some v],
             jobs := jobs w @ map (\<lambda>pq. (snd pq, v)) (filter (\<lambda>pq. fst pq = p) (reactions w)),
             history := history w @ [Settled p v]\<rparr>
      else w)"

definition resolve :: "promise \<Rightarrow> bool \<Rightarrow> world \<Rightarrow> world" where
  "resolve p result = settle p (Fulfilled result)"

definition reject :: "promise \<Rightarrow> reason \<Rightarrow> world \<Rightarrow> world" where
  "reject p r = settle p (Rejected r)"

text \<open>
  \<^verbatim>\<open>q.then((granted) => resolve(granted)).catch((err) => reject(err))\<close>, with \<^verbatim>\<open>resolve\<close> and
  \<^verbatim>\<open>reject\<close> those of \<open>p\<close>: when \<open>q\<close> is fulfilled the handler of \<^verbatim>\<open>then\<close> resolves \<open>p\<close> with
  the same value (it does not throw, so the handler of \<^verbatim>\<open>catch\<close> stays unused); when \<open>q\<close> is
  rejected \<^verbatim>\<open>then\<close> passes the rejection on and the handler of \<^verbatim>\<open>catch\<close> rejects \<open>p\<close> with the
  same value. Either way \<open>p\<close> is settled with what \<open>q\<close> was settled with, in a job that runs
  after the callback that settled \<open>q\<close> has returned. A reaction attached to a promise that is
  already settled is due at once.
\<close>

definition then_catch :: "promise \<Rightarrow> promise \<Rightarrow> world \<Rightarrow> world" where
  "then_catch q p w =
     (case promises w ! q of
        None \<Rightarrow> w\<lparr>reactions := reactions w @ [(q, p)]\<rparr>
      | Some v \<Rightarrow> w\<lparr>jobs := jobs w @ [(p, v)]\<rparr>)"

definition pending_count :: "world \<Rightarrow> nat" where
  "pending_count w = length (filter (\<lambda>s. s = None) (promises w))"

lemma pending_update_less:
  "p < length ps \<Longrightarrow> ps ! p = None \<Longrightarrow>
     length (filter (\<lambda>s. s = None) (ps[p := Some v])) < length (filter (\<lambda>s. s = None) ps)"
proof (induction ps arbitrary: p)
  case Nil
  then show ?case by simp
next
  case (Cons a ps)
  show ?case
  proof (cases p)
    case 0
    with Cons.prems show ?thesis by (simp add: less_Suc_eq_le)
  next
    case (Suc n)
    with Cons.prems Cons.IH [of n] show ?thesis by simp
  qed
qed

text \<open>
  The job queue is emptied after every callback, before the next one runs. A job settles its
  promise, which may make further jobs due; each round either settles a pending promise or
  shortens the queue, so the emptying ends.
\<close>

function drain :: "world \<Rightarrow> world" where
  "drain w =
     (case jobs w of
        [] \<Rightarrow> w
      | (p, v) # js \<Rightarrow> drain (settle p v (w\<lparr>jobs := js\<rparr>)))"
  by pat_completeness auto
termination
  by (relation "inv_image (less_than <*lex*> less_than) (\<lambda>w. (pending_count w, length (jobs w)))")
    (auto simp: settle_def pending_count_def pending_update_less)

declare drain.simps [simp del]

subsection \<open>The module\<close>

text \<open>
  Issuing a native call (\<^verbatim>\<open>AndroidPermissions.checkPermission(permission, ..., ...)\<close> and the
  like): the call joins the history, and its two callbacks are kept for the native side to
  fire. The call itself returns at once; the answer comes later, as a firing.
\<close>

definition native :: "native_call \<Rightarrow> callbacks \<Rightarrow> world \<Rightarrow> world" where
  "native c cbs w = w\<lparr>registered := registered w @ [cbs], history := history w @ [Invoked c]\<rparr>"

text \<open>
  Lines 91-103 and 109-121: \<^verbatim>\<open>new Promise((resolve, reject) => { ... })\<close> creates the promise and
  runs the executor, which issues the native call with \<^verbatim>\<open>(perm, result) => resolve(result)\<close> and
  \<^verbatim>\<open>(error) => reject(error)\<close>; the promise is returned.
\<close>

definition checkPermission :: "string \<Rightarrow> world \<Rightarrow> promise \<times> world" where
  "checkPermission permission w =
     (case new_Promise w of
        (p, w1) \<Rightarrow> (p, native (AndroidPermissions_checkPermission permission) (Settle_pair p) w1))"

definition requestPermission :: "string \<Rightarrow> world \<Rightarrow> promise \<times> world" where
  "requestPermission permission w =
     (case new_Promise w of
        (p, w1) \<Rightarrow> (p, native (AndroidPermissions_requestPermission permission) (Settle_pair p) w1))"

text \<open>Lines 134-138: the local closure \<^verbatim>\<open>requestPermission\<close> of the executor of promise \<open>p\<close>.\<close>

definition requestPermission_closure :: "promise \<Rightarrow> string \<Rightarrow> world \<Rightarrow> world" where
  "requestPermission_closure p permission w =
     (case requestPermission permission w of (q, w1) \<Rightarrow> then_catch q p w1)"

text \<open>
  Lines 132-164: the executor defines the closure and issues the query
  \<^verbatim>\<open>shouldShowRequestPermissionRationale\<close> with its two callbacks; what these do is in
  \<open>invoke\<close> below.
\<close>

definition requestPermissionWithRationale ::
    "string \<Rightarrow> string \<Rightarrow> string \<Rightarrow> world \<Rightarrow> promise \<times> world" where
  "requestPermissionWithRationale permission title' message' w =
     (case new_Promise w of
        (p, w1) \<Rightarrow>
          (p, native (AndroidPermissions_shouldShowRequestPermissionRationale permission)
                (Rationale_pair p permission title' message') w1))"

subsection \<open>The native side\<close>

text \<open>
  What a native call answers with: \<open>on_result perm result\<close> invokes the first callback of a
  permission method, \<open>on_error error\<close> the second; \<open>on_dismiss\<close> invokes the second argument of
  \<^verbatim>\<open>showAlert\<close>, \<open>on_proceed\<close> the third. A firing names the call by its number.
\<close>

datatype reply = on_result string bool | on_error string | on_dismiss | on_proceed

type_synonym firing = "nat \<times> reply"

text \<open>
  The body of each callback, by the pair it belongs to and the reply that invokes it:
  \<^item> lines 95-97 and 113-115, then lines 98-100 and 116-118;
  \<^item> lines 142-158: with \<^verbatim>\<open>shouldShow\<close> the dialog \<^verbatim>\<open>showAlert({title, message}, ..., requestPermission)\<close>,
    otherwise the closure \<^verbatim>\<open>requestPermission()\<close>; then lines 159-161;
  \<^item> lines 149-152: the second alert \<^verbatim>\<open>showAlert({message: 'Error Requesting Permissions'}, {}, {})\<close>
    and then \<^verbatim>\<open>reject()\<close>; line 153: the closure;
  \<^item> the \<^verbatim>\<open>perm\<close> a permission method reports back is ignored by every callback.
\<close>

fun invoke :: "callbacks \<Rightarrow> reply \<Rightarrow> world \<Rightarrow> world" where
  "invoke (Settle_pair p) (on_result perm result) w = resolve p result w"
| "invoke (Settle_pair p) (on_error error) w = reject p (Error error) w"
| "invoke (Rationale_pair p permission title' message') (on_result perm shouldShow) w =
     (if shouldShow
      then native (DialogManagerAndroid_showAlert \<lparr>title = Some title', message = message'\<rparr>)
             (Dialog_pair p permission) w
      else requestPermission_closure p permission w)"
| "invoke (Rationale_pair p permission title' message') (on_error error) w =
     reject p (Error error) w"
| "invoke (Dialog_pair p permission) on_dismiss w =
     reject p Undefined
       (native (DialogManagerAndroid_showAlert
                  \<lparr>title = None, message = ''Error Requesting Permissions''\<rparr>) Not_callable w)"
| "invoke (Dialog_pair p permission) on_proceed w = requestPermission_closure p permission w"
| "invoke _ _ w = w"

text \<open>A firing that names no call issued so far, or a callback the call was not given, does nothing.\<close>

definition fire :: "firing \<Rightarrow> world \<Rightarrow> world" where
  "fire f w =
     (if fst f < length (registered w)
      then drain (invoke (registered w ! fst f) (snd f) w)
      else w)"

fun run :: "firing list \<Rightarrow> world \<Rightarrow> world" where
  "run [] w = w"
| "run (f # fs) w = run fs (fire f w)"

text \<open>Line 167: the module's one instance, before any call.\<close>

definition PermissionsAndroid :: world where
  "PermissionsAndroid =
     \<lparr>PERMISSIONS =
        [(''READ_CALENDAR'', ''android.permission.READ_CALENDAR''),
         (''WRITE_CALENDAR'', ''android.permission.WRITE_CALENDAR''),
         (''CAMERA'', ''android.permission.CAMERA''),
         (''READ_CONTACTS'', ''android.permission.READ_CONTACTS''),
         (''WRITE_CONTACTS'', ''android.permission.WRITE_CONTACTS''),
         (''GET_ACCOUNTS'', ''android.permission.GET_ACCOUNTS''),
         (''ACCESS_FINE_LOCATION'', ''android.permission.ACCESS_FINE_LOCATION''),
         (''ACCESS_COARSE_LOCATION'', ''android.permission.ACCESS_COARSE_LOCATION''),
         (''RECORD_AUDIO'', ''android.permission.RECORD_AUDIO''),
         (''READ_PHONE_STATE'', ''android.permission.READ_PHONE_STATE''),
         (''CALL_PHONE'', ''android.permission.CALL_PHONE''),
         (''READ_CALL_LOG'', ''android.permission.READ_CALL_LOG''),
         (''WRITE_CALL_LOG'', ''android.permission.WRITE_CALL_LOG''),
         (''ADD_VOICEMAIL'', ''com.android.voicemail.permission.ADD_VOICEMAIL''),
         (''USE_SIP'', ''android.permission.USE_SIP''),
         (''PROCESS_OUTGOING_CALLS'', ''android.permission.PROCESS_OUTGOING_CALLS''),
         (''BODY_SENSORS'', ''android.permission.BODY_SENSORS''),
         (''SEND_SMS'', ''android.permission.SEND_SMS''),
         (''RECEIVE_SMS'', ''android.permission.RECEIVE_SMS''),
         (''READ_SMS'', ''android.permission.READ_SMS''),
         (''RECEIVE_WAP_PUSH'', ''android.permission.RECEIVE_WAP_PUSH''),
         (''RECEIVE_MMS'', ''android.permission.RECEIVE_MMS''),
         (''READ_EXTERNAL_STORAGE'', ''android.permission.READ_EXTERNAL_STORAGE''),
         (''WRITE_EXTERNAL_STORAGE'', ''android.permission.WRITE_EXTERNAL_STORAGE'')],
      promises = [], reactions = [], jobs = [], registered = [], history = []\<rparr>"

subsection \<open>Observations\<close>

fun calls_of :: "effect list \<Rightarrow> native_call list" where
  "calls_of [] = []"
| "calls_of (Invoked c # es) = c # calls_of es"
| "calls_of (Settled p v # es) = calls_of es"

definition calls :: "world \<Rightarrow> native_call list" where
  "calls w = calls_of (history w)"

text \<open>A public operation called on the fresh instance, the native side then firing \<open>evs\<close>.\<close>

definition after :: "promise \<times> world \<Rightarrow> firing list \<Rightarrow> promise \<times> world" where
  "after pw evs = (fst pw, run evs (snd pw))"

definition outcome :: "promise \<times> world \<Rightarrow> settled option" where
  "outcome pw = promises (snd pw) ! fst pw"

text \<open>The three public operations, called with a permission identifier.\<close>

datatype operation =
    CheckPermission
  | RequestPermission
  | RequestPermissionWithRationale string string

fun call :: "operation \<Rightarrow> string \<Rightarrow> world \<Rightarrow> promise \<times> world" where
  "call CheckPermission permission w = checkPermission permission w"
| "call RequestPermission permission w = requestPermission permission w"
| "call (RequestPermissionWithRationale title' message') permission w =
     requestPermissionWithRationale permission title' message' w"

text \<open>What the history says promise \<open>p\<close> was settled with, in order.\<close>

fun settlements_of :: "promise \<Rightarrow> effect list \<Rightarrow> settled list" where
  "settlements_of p [] = []"
| "settlements_of p (Invoked c # es) = settlements_of p es"
| "settlements_of p (Settled q v # es) = (if q = p then v # settlements_of p es else settlements_of p es)"

subsection \<open>The contract of the native side\<close>

text \<open>
  React Native hands every callback to native code for one use: a native call answers through
  one callback of the pair it was given, once. \<open>accepts cbs r\<close> says that the pair
  \<open>cbs\<close> holds the callback the reply \<open>r\<close> invokes; \<open>protocol answered evs w\<close> says
  that every firing of \<open>evs\<close>, at the moment it happens, names a call already issued and not
  yet answered (\<open>answered\<close> lists the calls answered before), through a callback that call
  was given. The native modules are not part of the repository; statements that need their
  contract take it as the hypothesis \<open>protocol [] evs w\<close>.
\<close>

fun accepts :: "callbacks \<Rightarrow> reply \<Rightarrow> bool" where
  "accepts (Settle_pair p) (on_result perm result) = True"
| "accepts (Settle_pair p) (on_error error) = True"
| "accepts (Rationale_pair p permission title' message') (on_result perm shouldShow) = True"
| "accepts (Rationale_pair p permission title' message') (on_error error) = True"
| "accepts (Dialog_pair p permission) on_dismiss = True"
| "accepts (Dialog_pair p permission) on_proceed = True"
| "accepts _ _ = False"

fun protocol :: "nat list \<Rightarrow> firing list \<Rightarrow> world \<Rightarrow> bool" where
  "protocol answered [] w = True"
| "protocol answered (f # fs) w =
     (fst f < length (registered w) \<and> fst f \<notin> set answered
      \<and> accepts (registered w ! fst f) (snd f)
      \<and> protocol (fst f # answered) fs (fire f w))"

text \<open>
  \<open>all_answered evs w\<close>: every call issued in \<open>w\<close> that was given callbacks is named by a
  firing of \<open>evs\<close>; nothing is left for the native side to answer.
\<close>

definition all_answered :: "firing list \<Rightarrow> world \<Rightarrow> bool" where
  "all_answered evs w \<longleftrightarrow>
     list_all (\<lambda>k. registered w ! k = Not_callable \<or> k \<in> set (map fst evs))
       [0..<length (registered w)]"

text \<open>
  The world right after \<^verbatim>\<open>requestPermissionWithRationale(permission, title, message)\<close> was
  called on the fresh instance.
\<close>

definition rationale_start :: "string \<Rightarrow> string \<Rightarrow> string \<Rightarrow> world" where
  "rationale_start permission t m = snd (requestPermissionWithRationale permission t m PermissionsAndroid)"

text \<open>
  \<open>position x xs\<close> is the index of the first \<open>x\<close> in \<open>xs\<close>; \<open>answers k evs\<close> are the
  firings of call \<open>k\<close>, renumbered as the answers of call \<open>0\<close>.
\<close>

fun position :: "'a \<Rightarrow> 'a list \<Rightarrow> nat" where
  "position x [] = 0"
| "position x (y # ys) = (if x = y then 0 else Suc (position x ys))"

definition answers :: "nat \<Rightarrow> firing list \<Rightarrow> firing list" where
  "answers k evs = map (\<lambda>f. (0, snd f)) (filter (\<lambda>f. fst f = k) evs)"

subsection \<open>Invariants\<close>

text \<open>
  \<open>recorded w\<close>: the history holds, for every promise, exactly the settlement the promise
  shows: none while it is pending, one once it is settled.
\<close>

definition recorded :: "world \<Rightarrow> bool" where
  "recorded w \<longleftrightarrow>
     (\<forall>p. settlements_of p (history w) =
        (if p < length (promises w)
         then (case promises w ! p of None \<Rightarrow> [] | Some v \<Rightarrow> [v])
         else []))"

definition settled_with :: "promise \<Rightarrow> settled \<Rightarrow> world \<Rightarrow> bool" where
  "settled_with p v w \<longleftrightarrow> p < length (promises w) \<and> promises w ! p = Some v"

definition exists_promise :: "promise \<Rightarrow> world \<Rightarrow> bool" where
  "exists_promise p w \<longleftrightarrow> p < length (promises w)"

text \<open>
  \<open>closed_reactions w\<close>: reactions hang on promises that exist. \<open>quiescent w\<close>: moreover no
  job is due, as between any two callbacks.
\<close>

definition closed_reactions :: "world \<Rightarrow> bool" where
  "closed_reactions w \<longleftrightarrow> list_all (\<lambda>qp. fst qp < length (promises w)) (reactions w)"

definition quiescent :: "world \<Rightarrow> bool" where
  "quiescent w \<longleftrightarrow> jobs w = [] \<and> closed_reactions w"

subsection \<open>Runs in another world\<close>

text \<open>
  \<open>transport c base s w\<close> is the world \<open>w\<close> moved behind the world \<open>base\<close>: its promises and
  calls are numbered after those of \<open>base\<close>, its permission identifiers are mapped by \<open>s\<close>, and
  its catalog is \<open>c\<close>. \<open>shift n evs\<close> renumbers the calls that firings name,
  \<open>new_calls w pw\<close> are the native calls issued since \<open>w\<close>, and \<open>rename_permission i\<close> puts the
  identifier \<open>i\<close> in place of the identifier of an effect.
\<close>

fun move_call :: "(string \<Rightarrow> string) \<Rightarrow> native_call \<Rightarrow> native_call" where
  "move_call s (AndroidPermissions_checkPermission permission)
     = AndroidPermissions_checkPermission (s permission)"
| "move_call s (AndroidPermissions_requestPermission permission)
     = AndroidPermissions_requestPermission (s permission)"
| "move_call s (AndroidPermissions_shouldShowRequestPermissionRationale permission)
     = AndroidPermissions_shouldShowRequestPermissionRationale (s permission)"
| "move_call s (DialogManagerAndroid_showAlert opts) = DialogManagerAndroid_showAlert opts"

fun move_callbacks :: "nat \<Rightarrow> (string \<Rightarrow> string) \<Rightarrow> callbacks \<Rightarrow> callbacks" where
  "move_callbacks n s (Settle_pair p) = Settle_pair (n + p)"
| "move_callbacks n s (Rationale_pair p permission title' message')
     = Rationale_pair (n + p) (s permission) title' message'"
| "move_callbacks n s (Dialog_pair p permission) = Dialog_pair (n + p) (s permission)"
| "move_callbacks n s Not_callable = Not_callable"

fun move_effect :: "nat \<Rightarrow> (string \<Rightarrow> string) \<Rightarrow> effect \<Rightarrow> effect" where
  "move_effect n s (Invoked c) = Invoked (move_call s c)"
| "move_effect n s (Settled p v) = Settled (n + p) v"

definition transport ::
    "(string \<times> string) list \<Rightarrow> world \<Rightarrow> (string \<Rightarrow> string) \<Rightarrow> world \<Rightarrow> world" where
  "transport c base s w =
     \<lparr>PERMISSIONS = c,
      promises = promises base @ promises w,
      reactions = reactions base
        @ map (\<lambda>qp. (length (promises base) + fst qp, length (promises base) + snd qp))
            (reactions w),
      jobs = map (\<lambda>pv. (length (promises base) + fst pv, snd pv)) (jobs w),
      registered = registered base @ map (move_callbacks (length (promises base)) s) (registered w),
      history = history base @ map (move_effect (length (promises base)) s) (history w)\<rparr>"

definition no_world :: world where
  "no_world = \<lparr>PERMISSIONS = [], promises = [], reactions = [], jobs = [], registered = [],
     history = []\<rparr>"

definition shift :: "nat \<Rightarrow> firing list \<Rightarrow> firing list" where
  "shift n evs = map (\<lambda>f. (n + fst f, snd f)) evs"

definition new_calls :: "world \<Rightarrow> promise \<times> world \<Rightarrow> native_call list" where
  "new_calls w pw = drop (length (calls w)) (calls (snd pw))"

fun rename_permission :: "string \<Rightarrow> effect \<Rightarrow> effect" where
  "rename_permission i (Invoked (AndroidPermissions_checkPermission permission))
     = Invoked (AndroidPermissions_checkPermission i)"
| "rename_permission i (Invoked (AndroidPermissions_requestPermission permission))
     = Invoked (AndroidPermissions_requestPermission i)"
| "rename_permission i (Invoked (AndroidPermissions_shouldShowRequestPermissionRationale permission))
     = Invoked (AndroidPermissions_shouldShowRequestPermissionRationale i)"
| "rename_permission i (Invoked (DialogManagerAndroid_showAlert opts))
     = Invoked (DialogManagerAndroid_showAlert opts)"
| "rename_permission i (Settled p v) = Settled p v"

section \<open>Basic facts\<close>

lemma settlements_of_append:
  "settlements_of p (xs @ ys) = settlements_of p xs @ settlements_of p ys"
  by (induction p xs rule: settlements_of.induct) simp_all

lemma calls_of_append: "calls_of (xs @ ys) = calls_of xs @ calls_of ys"
  by (induction xs rule: calls_of.induct) simp_all

lemma drain_Nil: "jobs w = [] \<Longrightarrow> drain w = w"
  by (subst drain.simps) simp

lemma drain_Cons: "jobs w = (p, v) # js \<Longrightarrow> drain w = drain (settle p v (w\<lparr>jobs := js\<rparr>))"
  by (subst drain.simps) simp

lemma fresh_fields [simp]:
  "promises PermissionsAndroid = []" "reactions PermissionsAndroid = []"
  "jobs PermissionsAndroid = []" "registered PermissionsAndroid = []"
  "history PermissionsAndroid = []"
  by (simp_all add: PermissionsAndroid_def)

lemmas bridge_defs = checkPermission_def requestPermission_def requestPermissionWithRationale_def
  requestPermission_closure_def new_Promise_def native_def settle_def resolve_def reject_def
  then_catch_def fire_def drain_Nil drain_Cons

lemmas observe_defs = after_def outcome_def calls_def rationale_start_def

lemma requestPermission_closure_unfold:
  "requestPermission_closure p permission w =
     then_catch (length (promises w)) p
       (native (AndroidPermissions_requestPermission permission)
          (Settle_pair (length (promises w))) (snd (new_Promise w)))"
  by (simp add: requestPermission_closure_def requestPermission_def new_Promise_def)

lemma run_append: "run (xs @ ys) w = run ys (run xs w)"
  by (induction xs arbitrary: w) simp_all

lemma fst_call: "fst (call op permission PermissionsAndroid) = 0"
  by (cases op)
    (simp_all add: checkPermission_def requestPermission_def
      requestPermissionWithRationale_def new_Promise_def PermissionsAndroid_def)

text \<open>
  What the primitives preserve, every callback preserves, and so does every run.
\<close>

lemma drain_preserves:
  assumes "\<And>p v w. P w \<Longrightarrow> P (settle p v w)"
    and "\<And>js w. P w \<Longrightarrow> P (w\<lparr>jobs := js\<rparr>)"
    and "P w"
  shows "P (drain w)"
  using assms(3)
proof (induction w rule: drain.induct)
  case (1 w)
  show ?case
  proof (cases "jobs w")
    case Nil
    with 1 show ?thesis by (simp add: drain_Nil)
  next
    case (Cons a js)
    obtain p v where a: "a = (p, v)" by (cases a)
    have "P (settle p v (w\<lparr>jobs := js\<rparr>))" using 1(2) assms(1,2) by blast
    with 1(1) [OF Cons a [symmetric]] show ?thesis
      using Cons a by (simp add: drain_Cons)
  qed
qed

lemma invoke_preserves:
  assumes "\<And>p v w. P w \<Longrightarrow> P (settle p v w)"
    and "\<And>c cb w. P w \<Longrightarrow> P (native c cb w)"
    and "\<And>w. P w \<Longrightarrow> P (snd (new_Promise w))"
    and "\<And>q p w. P w \<Longrightarrow> P (then_catch q p w)"
    and "P w"
  shows "P (invoke cbs r w)"
proof -
  have "P (then_catch q p (native c cb (snd (new_Promise w))))" for q p c cb
    by (intro assms)
  then have rq: "P (requestPermission_closure p permission w)" for p permission
    by (simp add: requestPermission_closure_unfold)
  show ?thesis
  proof (cases "(cbs, r, w)" rule: invoke.cases)
  qed (simp_all add: resolve_def reject_def assms rq)
qed

lemma fire_preserves:
  assumes "\<And>p v w. P w \<Longrightarrow> P (settle p v w)"
    and "\<And>c cb w. P w \<Longrightarrow> P (native c cb w)"
    and "\<And>w. P w \<Longrightarrow> P (snd (new_Promise w))"
    and "\<And>q p w. P w \<Longrightarrow> P (then_catch q p w)"
    and "\<And>js w. P w \<Longrightarrow> P (w\<lparr>jobs := js\<rparr>)"
    and "P w"
  shows "P (fire f w)"
proof (cases "fst f < length (registered w)")
  case True
  from assms(1-4) assms(6) have "P (invoke (registered w ! fst f) (snd f) w)"
    by (rule invoke_preserves)
  with assms(1) assms(5) have "P (drain (invoke (registered w ! fst f) (snd f) w))"
    by (rule drain_preserves)
  with True show ?thesis by (simp add: fire_def)
next
  case False
  with assms(6) show ?thesis by (simp add: fire_def)
qed

lemma run_preserves:
  assumes "\<And>p v w. P w \<Longrightarrow> P (settle p v w)"
    and "\<And>c cb w. P w \<Longrightarrow> P (native c cb w)"
    and "\<And>w. P w \<Longrightarrow> P (snd (new_Promise w))"
    and "\<And>q p w. P w \<Longrightarrow> P (then_catch q p w)"
    and "\<And>js w. P w \<Longrightarrow> P (w\<lparr>jobs := js\<rparr>)"
    and "P w"
  shows "P (run evs w)"
  using assms(6)
proof (induction evs arbitrary: w)
  case Nil
  then show ?case by simp
next
  case (Cons f evs)
  from assms(1-5) Cons.prems have "P (fire f w)" by (rule fire_preserves)
  then show ?case using Cons.IH by simp
qed

lemma recorded_settle: "recorded w \<Longrightarrow> recorded (settle p v w)"
  by (auto simp: recorded_def settle_def settlements_of_append nth_list_update)

lemma recorded_native: "recorded w \<Longrightarrow> recorded (native c cb w)"
  by (simp add: recorded_def native_def settlements_of_append)

lemma recorded_new_Promise: "recorded w \<Longrightarrow> recorded (snd (new_Promise w))"
  by (auto simp: recorded_def new_Promise_def nth_append)

lemma recorded_then_catch: "recorded w \<Longrightarrow> recorded (then_catch q p w)"
  by (simp add: recorded_def then_catch_def split: option.splits)

lemma recorded_jobs: "recorded w \<Longrightarrow> recorded (w\<lparr>jobs := js\<rparr>)"
  by (simp add: recorded_def)

lemma recorded_run: "recorded w \<Longrightarrow> recorded (run evs w)"
  by (rule run_preserves [where P = recorded])
    (simp_all add: recorded_settle recorded_native recorded_new_Promise recorded_then_catch
      recorded_jobs)

lemma recorded_call: "recorded (snd (call op permission PermissionsAndroid))"
  by (cases op)
    (simp_all add: recorded_def checkPermission_def requestPermission_def
      requestPermissionWithRationale_def new_Promise_def native_def PermissionsAndroid_def)

lemma settled_with_run: "settled_with p v w \<Longrightarrow> settled_with p v (run evs w)"
  by (rule run_preserves [where P = "settled_with p v"])
    (auto simp: settled_with_def settle_def native_def new_Promise_def then_catch_def
      nth_append nth_list_update split: option.splits)

lemma exists_promise_run: "exists_promise p w \<Longrightarrow> exists_promise p (run evs w)"
  by (rule run_preserves [where P = "exists_promise p"])
    (auto simp: exists_promise_def settle_def native_def new_Promise_def then_catch_def
      split: option.splits)

lemma exists_promise_call: "exists_promise 0 (snd (call op permission PermissionsAndroid))"
  by (cases op)
    (simp_all add: exists_promise_def checkPermission_def requestPermission_def
      requestPermissionWithRationale_def new_Promise_def native_def PermissionsAndroid_def)

section \<open>The permission catalog\<close>

text \<open>
  C7: the catalog maps the symbolic names to exactly the platform's identifier strings:
  \<open>CAMERA\<close> to \<open>android.permission.CAMERA\<close>, \<open>READ_CONTACTS\<close> to
  \<open>android.permission.READ_CONTACTS\<close> and \<open>ACCESS_FINE_LOCATION\<close> to
  \<open>android.permission.ACCESS_FINE_LOCATION\<close>.
\<close>

theorem PERMISSIONS_catalog:
  "map_of (PERMISSIONS PermissionsAndroid) ''CAMERA'' = Some ''android.permission.CAMERA''
   \<and> map_of (PERMISSIONS PermissionsAndroid) ''READ_CONTACTS''
       = Some ''android.permission.READ_CONTACTS''
   \<and> map_of (PERMISSIONS PermissionsAndroid) ''ACCESS_FINE_LOCATION''
       = Some ''android.permission.ACCESS_FINE_LOCATION''"
  by (simp add: PermissionsAndroid_def)

section \<open>checkPermission and requestPermission\<close>

lemma check_start:
  "fst (checkPermission permission PermissionsAndroid) = 0"
  "registered (snd (checkPermission permission PermissionsAndroid)) = [Settle_pair 0]"
  "promises (snd (checkPermission permission PermissionsAndroid)) = [None]"
  "history (snd (checkPermission permission PermissionsAndroid))
     = [Invoked (AndroidPermissions_checkPermission permission)]"
  by (simp_all add: bridge_defs)

lemma request_start:
  "fst (requestPermission permission PermissionsAndroid) = 0"
  "registered (snd (requestPermission permission PermissionsAndroid)) = [Settle_pair 0]"
  "promises (snd (requestPermission permission PermissionsAndroid)) = [None]"
  "history (snd (requestPermission permission PermissionsAndroid))
     = [Invoked (AndroidPermissions_requestPermission permission)]"
  by (simp_all add: bridge_defs)

lemma first_answer_settles:
  assumes "registered w = [Settle_pair 0]" and "promises w = [None]"
    and "reactions w = []" and "jobs w = []"
  shows "settled_with 0 (Fulfilled result) (run evs (fire (0, on_result perm result) w))"
    and "settled_with 0 (Rejected (Error error)) (run evs (fire (0, on_error error) w))"
  by (rule settled_with_run, simp add: assms settled_with_def bridge_defs)+

text \<open>
  C4: for every permission identifier, \<^verbatim>\<open>checkPermission\<close> issues the one native call
  \<^verbatim>\<open>AndroidPermissions.checkPermission\<close> with that identifier; when the native success callback
  fires with \<open>result\<close> the promise is fulfilled with exactly \<open>result\<close>, and when the failure
  callback fires instead with \<open>error\<close> the promise is rejected with exactly \<open>error\<close>,
  whatever fires afterwards. The same holds for \<^verbatim>\<open>requestPermission\<close>.
\<close>

theorem native_answer_adapted:
  "calls (snd (checkPermission permission PermissionsAndroid))
     = [AndroidPermissions_checkPermission permission]
   \<and> outcome (after (checkPermission permission PermissionsAndroid)
        ((0, on_result perm result) # evs)) = Some (Fulfilled result)
   \<and> outcome (after (checkPermission permission PermissionsAndroid)
        ((0, on_error error) # evs)) = Some (Rejected (Error error))
   \<and> calls (snd (requestPermission permission PermissionsAndroid))
     = [AndroidPermissions_requestPermission permission]
   \<and> outcome (after (requestPermission permission PermissionsAndroid)
        ((0, on_result perm result) # evs)) = Some (Fulfilled result)
   \<and> outcome (after (requestPermission permission PermissionsAndroid)
        ((0, on_error error) # evs)) = Some (Rejected (Error error))"
proof -
  have c: "reactions (snd (checkPermission permission PermissionsAndroid)) = []"
    "jobs (snd (checkPermission permission PermissionsAndroid)) = []"
    by (simp_all add: bridge_defs)
  have r: "reactions (snd (requestPermission permission PermissionsAndroid)) = []"
    "jobs (snd (requestPermission permission PermissionsAndroid)) = []"
    by (simp_all add: bridge_defs)
  show ?thesis
    using first_answer_settles [OF check_start(2,3) c]
      first_answer_settles [OF request_start(2,3) r]
    by (simp add: after_def outcome_def calls_def check_start request_start settled_with_def)
qed

text \<open>
  C5: for every permission identifier, when the native layer reports \<open>false\<close> to
  \<^verbatim>\<open>requestPermission\<close>, the promise is fulfilled with \<open>false\<close>: its one settlement is a
  fulfilment, not a rejection.
\<close>

theorem denial_is_fulfilled_false:
  "outcome (after (requestPermission permission PermissionsAndroid)
      ((0, on_result perm False) # evs)) = Some (Fulfilled False)
   \<and> settlements_of 0 (history (snd (after (requestPermission permission PermissionsAndroid)
        ((0, on_result perm False) # evs)))) = [Fulfilled False]"
proof -
  let ?w = "snd (requestPermission permission PermissionsAndroid)"
  have r: "reactions ?w = []" "jobs ?w = []"
    by (simp_all add: bridge_defs)
  have s: "settled_with 0 (Fulfilled False) (run evs (fire (0, on_result perm False) ?w))"
    by (rule first_answer_settles [OF request_start(2,3) r])
  have "recorded ?w" using recorded_call [of RequestPermission permission] by simp
  then have "recorded (run ((0, on_result perm False) # evs) ?w)" by (rule recorded_run)
  with s show ?thesis
    by (simp add: after_def outcome_def request_start settled_with_def recorded_def)
qed

section \<open>requestPermissionWithRationale\<close>

text \<open>
  Under the contract, one call of \<^verbatim>\<open>requestPermissionWithRationale\<close> has ten possible
  courses. Call 0 is the query \<^verbatim>\<open>shouldShowRequestPermissionRationale\<close>; when it answers
  \<open>false\<close>, call 1 is the request; when it answers \<open>true\<close>, call 1 is the rationale dialog
  and call 2 the request (after proceed) or the second alert (after dismiss).
\<close>

lemma accepts_Settle_pair:
  "accepts (Settle_pair p) r \<longleftrightarrow> (\<exists>perm b. r = on_result perm b) \<or> (\<exists>e. r = on_error e)"
  by (cases r) simp_all

lemma accepts_Rationale_pair:
  "accepts (Rationale_pair p permission t m) r
     \<longleftrightarrow> (\<exists>perm b. r = on_result perm b) \<or> (\<exists>e. r = on_error e)"
  by (cases r) simp_all

lemma accepts_Dialog_pair:
  "accepts (Dialog_pair p permission) r \<longleftrightarrow> r = on_dismiss \<or> r = on_proceed"
  by (cases r) simp_all

lemma protocol_exhausted:
  assumes "\<And>k. k < length (registered w) \<Longrightarrow> k \<in> set answered \<or> registered w ! k = Not_callable"
  shows "protocol answered fs w \<longleftrightarrow> fs = []"
proof (cases fs)
  case Nil
  then show ?thesis by simp
next
  case (Cons f fs')
  show ?thesis
  proof
    assume "protocol answered fs w"
    with Cons have k: "fst f < length (registered w)" "fst f \<notin> set answered"
      "accepts (registered w ! fst f) (snd f)" by simp_all
    with assms [of "fst f"] show "fs = []" by simp
  qed (simp add: Cons)
qed

lemma protocol_after_error:
  "protocol [0] fs (fire (0, on_error e) (rationale_start permission t m)) \<longleftrightarrow> fs = []"
  by (rule protocol_exhausted) (simp add: rationale_start_def bridge_defs)

lemma protocol_after_request:
  "protocol [0] fs (fire (0, on_result perm False) (rationale_start permission t m)) \<longleftrightarrow>
     fs = [] \<or> (\<exists>perm' b. fs = [(1, on_result perm' b)]) \<or> (\<exists>e. fs = [(1, on_error e)])"
proof (cases fs)
  case Nil
  then show ?thesis by simp
next
  case (Cons f fs')
  obtain k r where f: "f = (k, r)" by (cases f)
  have "protocol [1, 0] fs' (fire (1, r) (fire (0, on_result perm False) (rationale_start permission t m)))
      \<longleftrightarrow> fs' = []" if "accepts (Settle_pair 1) r"
    using that
    by (intro protocol_exhausted) (auto simp: accepts_Settle_pair rationale_start_def bridge_defs less_Suc_eq)
  then show ?thesis
    using Cons f
    by (auto simp: accepts_Settle_pair rationale_start_def bridge_defs less_Suc_eq)
qed

lemma protocol_after_proceed:
  "protocol [1, 0] fs
      (fire (1, on_proceed) (fire (0, on_result perm True) (rationale_start permission t m))) \<longleftrightarrow>
     fs = [] \<or> (\<exists>perm' b. fs = [(2, on_result perm' b)]) \<or> (\<exists>e. fs = [(2, on_error e)])"
proof (cases fs)
  case Nil
  then show ?thesis by simp
next
  case (Cons g gs)
  obtain j s where g: "g = (j, s)" by (cases g)
  let ?w = "fire (1, on_proceed) (fire (0, on_result perm True) (rationale_start permission t m))"
  have reg: "registered ?w = [Rationale_pair 0 permission t m, Dialog_pair 0 permission, Settle_pair 1]"
    by (simp add: rationale_start_def bridge_defs)
  have last: "protocol [2, 1, 0] gs (fire (2, s) ?w) \<longleftrightarrow> gs = []"
    if "accepts (Settle_pair 1) s"
    using that
    by (intro protocol_exhausted)
      (auto simp: accepts_Settle_pair rationale_start_def bridge_defs less_Suc_eq numeral_2_eq_2)
  have "protocol [1, 0] fs ?w \<longleftrightarrow>
      j = 2 \<and> accepts (Settle_pair 1) s \<and> protocol [2, 1, 0] gs (fire (2, s) ?w)"
    using Cons g by (auto simp: reg [simplified] less_Suc_eq numeral_2_eq_2 numeral_3_eq_3)
  also have "\<dots> \<longleftrightarrow> j = 2 \<and> accepts (Settle_pair 1) s \<and> gs = []"
    using last by blast
  finally show ?thesis
    using Cons g by (auto simp: accepts_Settle_pair)
qed

lemma protocol_after_dismiss:
  "protocol [1, 0] fs
      (fire (1, on_dismiss) (fire (0, on_result perm True) (rationale_start permission t m))) \<longleftrightarrow>
     fs = []"
  by (intro protocol_exhausted)
    (auto simp: rationale_start_def bridge_defs less_Suc_eq numeral_2_eq_2 numeral_3_eq_3)

lemma protocol_after_dialog:
  "protocol [0] fs (fire (0, on_result perm True) (rationale_start permission t m)) \<longleftrightarrow>
     fs = [] \<or> fs = [(1, on_dismiss)] \<or> fs = [(1, on_proceed)]
     \<or> (\<exists>perm' b. fs = [(1, on_proceed), (2, on_result perm' b)])
     \<or> (\<exists>e. fs = [(1, on_proceed), (2, on_error e)])"
proof (cases fs)
  case Nil
  then show ?thesis by simp
next
  case (Cons f fs')
  obtain k r where f: "f = (k, r)" by (cases f)
  let ?w = "fire (0, on_result perm True) (rationale_start permission t m)"
  have reg: "registered ?w = [Rationale_pair 0 permission t m, Dialog_pair 0 permission]"
    by (simp add: rationale_start_def bridge_defs)
  have "protocol [0] fs ?w \<longleftrightarrow>
      k = 1 \<and> (r = on_dismiss \<or> r = on_proceed) \<and> protocol [1, 0] fs' (fire (1, r) ?w)"
    using Cons f by (auto simp: reg accepts_Dialog_pair less_Suc_eq numeral_2_eq_2)
  also have "\<dots> \<longleftrightarrow> k = 1 \<and>
      (r = on_dismiss \<and> fs' = []
       \<or> r = on_proceed \<and>
          (fs' = [] \<or> (\<exists>perm' b. fs' = [(2, on_result perm' b)]) \<or> (\<exists>e. fs' = [(2, on_error e)])))"
    using protocol_after_dismiss [of fs' perm permission t m]
      protocol_after_proceed [of fs' perm permission t m]
    by blast
  finally show ?thesis
    using Cons f by auto
qed

lemma protocol_rationale:
  "protocol [] evs (rationale_start permission t m) \<longleftrightarrow>
     evs = []
     \<or> (\<exists>e. evs = [(0, on_error e)])
     \<or> (\<exists>perm. evs = [(0, on_result perm False)])
     \<or> (\<exists>perm perm' b. evs = [(0, on_result perm False), (1, on_result perm' b)])
     \<or> (\<exists>perm e. evs = [(0, on_result perm False), (1, on_error e)])
     \<or> (\<exists>perm. evs = [(0, on_result perm True)])
     \<or> (\<exists>perm. evs = [(0, on_result perm True), (1, on_dismiss)])
     \<or> (\<exists>perm. evs = [(0, on_result perm True), (1, on_proceed)])
     \<or> (\<exists>perm perm' b. evs = [(0, on_result perm True), (1, on_proceed), (2, on_result perm' b)])
     \<or> (\<exists>perm e. evs = [(0, on_result perm True), (1, on_proceed), (2, on_error e)])"
proof (cases evs)
  case Nil
  then show ?thesis by simp
next
  case (Cons f fs)
  obtain k r where f: "f = (k, r)" by (cases f)
  have start: "registered (rationale_start permission t m) = [Rationale_pair 0 permission t m]"
    by (simp add: rationale_start_def bridge_defs)
  have unfold: "protocol [] evs (rationale_start permission t m) \<longleftrightarrow>
      k = 0 \<and> accepts (Rationale_pair 0 permission t m) r
      \<and> protocol [0] fs (fire (0, r) (rationale_start permission t m))"
    using Cons f by (auto simp: start)
  show ?thesis
  proof (cases r)
    case (on_result perm b)
    show ?thesis
    proof (cases b)
      case True
      with on_result unfold Cons f show ?thesis
        by (simp add: protocol_after_dialog; blast)
    next
      case False
      with on_result unfold Cons f show ?thesis
        by (simp add: protocol_after_request; blast)
    qed
  next
    case (on_error e)
    with unfold Cons f show ?thesis
      by (simp add: protocol_after_error; blast)
  next
    case on_dismiss
    with unfold Cons f show ?thesis by simp
  next
    case on_proceed
    with unfold Cons f show ?thesis by simp
  qed
qed

text \<open>
  C1: for every call of \<^verbatim>\<open>requestPermissionWithRationale(permission, title, message)\<close>
  whose native side keeps the contract, the first native call is the query, and the native
  request \<^verbatim>\<open>requestPermission(permission)\<close> is invoked if and only if the query succeeds with
  \<open>false\<close>, or succeeds with \<open>true\<close> and the proceed continuation of the dialog fires. No
  request for any other identifier is invoked either.
\<close>

theorem request_iff_phase2:
  assumes "protocol [] evs
     (snd (requestPermissionWithRationale permission title' message' PermissionsAndroid))"
  shows "hd (calls (snd (after (requestPermissionWithRationale permission title' message'
             PermissionsAndroid) evs)))
          = AndroidPermissions_shouldShowRequestPermissionRationale permission
     \<and> (AndroidPermissions_requestPermission permission
          \<in> set (calls (snd (after (requestPermissionWithRationale permission title' message'
                PermissionsAndroid) evs)))
        \<longleftrightarrow> (\<exists>perm. (0, on_result perm False) \<in> set evs)
            \<or> (\<exists>perm. (0, on_result perm True) \<in> set evs) \<and> (\<exists>k. (k, on_proceed) \<in> set evs))
     \<and> ((\<exists>id. AndroidPermissions_requestPermission id
          \<in> set (calls (snd (after (requestPermissionWithRationale permission title' message'
                PermissionsAndroid) evs))))
        \<longleftrightarrow> (\<exists>perm. (0, on_result perm False) \<in> set evs)
            \<or> (\<exists>perm. (0, on_result perm True) \<in> set evs) \<and> (\<exists>k. (k, on_proceed) \<in> set evs))"
  using assms [folded rationale_start_def, unfolded protocol_rationale]
  by (elim disjE exE) (simp_all add: observe_defs bridge_defs)

theorem request_iff_phase2_witness:
  "protocol [] [(0, on_result ''android.permission.CAMERA'' True), (1, on_proceed)]
     (snd (requestPermissionWithRationale ''android.permission.CAMERA'' ''T'' ''M''
        PermissionsAndroid))
   \<and> AndroidPermissions_requestPermission ''android.permission.CAMERA''
       \<in> set (calls (snd (after (requestPermissionWithRationale ''android.permission.CAMERA''
             ''T'' ''M'' PermissionsAndroid)
           [(0, on_result ''android.permission.CAMERA'' True), (1, on_proceed)])))"
proof -
  have p: "protocol [] [(0, on_result ''android.permission.CAMERA'' True), (1, on_proceed)]
     (snd (requestPermissionWithRationale ''android.permission.CAMERA'' ''T'' ''M''
        PermissionsAndroid))"
    by (simp add: bridge_defs)
  from request_iff_phase2 [OF p] p show ?thesis by simp
qed

text \<open>
  C2: for every call of \<^verbatim>\<open>requestPermissionWithRationale\<close> whose native side keeps the
  contract, if the dismiss path of the rationale dialog fires, the result is a rejection with
  no error value (\<^verbatim>\<open>undefined\<close>), not a fulfilment with \<open>false\<close>; no native
  \<^verbatim>\<open>requestPermission\<close> is ever invoked; and the history is the query, the dialog, the second
  alert with the message \<open>Error Requesting Permissions\<close>, and only then the rejection.
\<close>

theorem dismissed_rationale_fails:
  assumes "protocol [] evs
     (snd (requestPermissionWithRationale permission title' message' PermissionsAndroid))"
    and "(k, on_dismiss) \<in> set evs"
  shows "outcome (after (requestPermissionWithRationale permission title' message'
             PermissionsAndroid) evs) = Some (Rejected Undefined)
     \<and> (\<forall>id. AndroidPermissions_requestPermission id
          \<notin> set (calls (snd (after (requestPermissionWithRationale permission title' message'
                PermissionsAndroid) evs))))
     \<and> history (snd (after (requestPermissionWithRationale permission title' message'
             PermissionsAndroid) evs))
        = [Invoked (AndroidPermissions_shouldShowRequestPermissionRationale permission),
           Invoked (DialogManagerAndroid_showAlert \<lparr>title = Some title', message = message'\<rparr>),
           Invoked (DialogManagerAndroid_showAlert
                      \<lparr>title = None, message = ''Error Requesting Permissions''\<rparr>),
           Settled 0 (Rejected Undefined)]"
  using assms(1) [folded rationale_start_def, unfolded protocol_rationale] assms(2)
  by (elim disjE exE) (simp_all add: observe_defs bridge_defs)

theorem dismissed_rationale_fails_witness:
  "protocol [] [(0, on_result ''android.permission.CAMERA'' True), (1, on_dismiss)]
     (snd (requestPermissionWithRationale ''android.permission.CAMERA'' ''T'' ''M''
        PermissionsAndroid))
   \<and> (1, on_dismiss) \<in> set [(0, on_result ''android.permission.CAMERA'' True), (1, on_dismiss)]
   \<and> outcome (after (requestPermissionWithRationale ''android.permission.CAMERA'' ''T'' ''M''
         PermissionsAndroid)
        [(0, on_result ''android.permission.CAMERA'' True), (1, on_dismiss)])
       = Some (Rejected Undefined)"
proof -
  have p: "protocol [] [(0, on_result ''android.permission.CAMERA'' True), (1, on_dismiss)]
     (snd (requestPermissionWithRationale ''android.permission.CAMERA'' ''T'' ''M''
        PermissionsAndroid))"
    by (simp add: bridge_defs)
  have d: "(1, on_dismiss) \<in> set [(0, on_result ''android.permission.CAMERA'' True), (1, on_dismiss)]"
    by simp
  from dismissed_rationale_fails [OF p d] p d show ?thesis by simp
qed

text \<open>
  C3: for every call of \<^verbatim>\<open>requestPermissionWithRationale\<close> whose native side keeps the
  contract, if the query itself fails with the error \<open>e\<close>, the result is a rejection with that
  same \<open>e\<close>, and the history is the query and the rejection only: no dialog is ever shown
  and no permission request is ever issued.
\<close>

theorem rationale_query_failure:
  assumes "protocol [] evs
     (snd (requestPermissionWithRationale permission title' message' PermissionsAndroid))"
    and "(0, on_error e) \<in> set evs"
  shows "outcome (after (requestPermissionWithRationale permission title' message'
             PermissionsAndroid) evs) = Some (Rejected (Error e))
     \<and> history (snd (after (requestPermissionWithRationale permission title' message'
             PermissionsAndroid) evs))
        = [Invoked (AndroidPermissions_shouldShowRequestPermissionRationale permission),
           Settled 0 (Rejected (Error e))]"
  using assms(1) [folded rationale_start_def, unfolded protocol_rationale] assms(2)
  by (elim disjE exE) (simp_all add: observe_defs bridge_defs)

theorem rationale_query_failure_witness:
  "protocol [] [(0, on_error ''no activity'')]
     (snd (requestPermissionWithRationale ''android.permission.CAMERA'' ''T'' ''M''
        PermissionsAndroid))
   \<and> (0, on_error ''no activity'') \<in> set [(0, on_error ''no activity'')]
   \<and> outcome (after (requestPermissionWithRationale ''android.permission.CAMERA'' ''T'' ''M''
         PermissionsAndroid) [(0, on_error ''no activity'')])
       = Some (Rejected (Error ''no activity''))"
proof -
  have p: "protocol [] [(0, on_error ''no activity'')]
     (snd (requestPermissionWithRationale ''android.permission.CAMERA'' ''T'' ''M''
        PermissionsAndroid))"
    by (simp add: bridge_defs)
  have d: "(0, on_error ''no activity'') \<in> set [(0, on_error ''no activity'')]"
    by simp
  from rationale_query_failure [OF p d] p d show ?thesis by simp
qed

text \<open>
  C6: whenever phase 2 runs (the query answered \<open>false\<close>, or answered \<open>true\<close> and the
  dialog proceeded), \<^verbatim>\<open>requestPermissionWithRationale(permission, title, message)\<close> has exactly
  the outcome of a direct \<^verbatim>\<open>requestPermission(permission)\<close> whose native call is given the
  answers that the request of phase 2 was given: pending, fulfilled with the same boolean, or
  rejected with the same error. The direct call's native side keeps the contract as well.
\<close>

theorem phase2_as_direct_request:
  assumes "protocol [] evs
     (snd (requestPermissionWithRationale permission title' message' PermissionsAndroid))"
    and "(\<exists>perm. (0, on_result perm False) \<in> set evs)
         \<or> (\<exists>perm. (0, on_result perm True) \<in> set evs) \<and> (\<exists>k. (k, on_proceed) \<in> set evs)"
  shows "outcome (after (requestPermissionWithRationale permission title' message'
             PermissionsAndroid) evs)
         = outcome (after (requestPermission permission PermissionsAndroid)
             (answers (position (AndroidPermissions_requestPermission permission)
                 (calls (snd (after (requestPermissionWithRationale permission title' message'
                    PermissionsAndroid) evs)))) evs))
     \<and> protocol []
          (answers (position (AndroidPermissions_requestPermission permission)
                 (calls (snd (after (requestPermissionWithRationale permission title' message'
                    PermissionsAndroid) evs)))) evs)
          (snd (requestPermission permission PermissionsAndroid))"
  using assms(1) [folded rationale_start_def, unfolded protocol_rationale] assms(2)
  by (elim disjE exE) (simp_all add: observe_defs bridge_defs answers_def)

theorem phase2_as_direct_request_witness:
  "protocol []
     [(0, on_result ''android.permission.CAMERA'' True), (1, on_proceed),
      (2, on_result ''android.permission.CAMERA'' True)]
     (snd (requestPermissionWithRationale ''android.permission.CAMERA'' ''T'' ''M''
        PermissionsAndroid))
   \<and> outcome (after (requestPermissionWithRationale ''android.permission.CAMERA'' ''T'' ''M''
         PermissionsAndroid)
        [(0, on_result ''android.permission.CAMERA'' True), (1, on_proceed),
         (2, on_result ''android.permission.CAMERA'' True)])
       = outcome (after (requestPermission ''android.permission.CAMERA'' PermissionsAndroid)
           [(0, on_result ''android.permission.CAMERA'' True)])
   \<and> outcome (after (requestPermission ''android.permission.CAMERA'' PermissionsAndroid)
           [(0, on_result ''android.permission.CAMERA'' True)]) = Some (Fulfilled True)"
proof -
  let ?evs = "[(0, on_result ''android.permission.CAMERA'' True), (1, on_proceed),
      (2, on_result ''android.permission.CAMERA'' True)]"
  have p: "protocol [] ?evs
     (snd (requestPermissionWithRationale ''android.permission.CAMERA'' ''T'' ''M''
        PermissionsAndroid))"
    by (simp add: bridge_defs)
  have d: "(\<exists>perm. (0, on_result perm False) \<in> set ?evs)
         \<or> (\<exists>perm. (0, on_result perm True) \<in> set ?evs) \<and> (\<exists>k. (k, on_proceed) \<in> set ?evs)"
    by auto
  have a: "answers (position (AndroidPermissions_requestPermission ''android.permission.CAMERA'')
       (calls (snd (after (requestPermissionWithRationale ''android.permission.CAMERA'' ''T'' ''M''
         PermissionsAndroid) ?evs)))) ?evs = [(0, on_result ''android.permission.CAMERA'' True)]"
    by (simp add: observe_defs bridge_defs answers_def)
  have o: "outcome (after (requestPermission ''android.permission.CAMERA'' PermissionsAndroid)
           [(0, on_result ''android.permission.CAMERA'' True)]) = Some (Fulfilled True)"
    by (simp add: observe_defs bridge_defs)
  from phase2_as_direct_request [OF p d] p a o show ?thesis by simp
qed

section \<open>Settling once\<close>

lemma protocol_check:
  "protocol [] evs (snd (checkPermission permission PermissionsAndroid)) \<longleftrightarrow>
     evs = [] \<or> (\<exists>perm b. evs = [(0, on_result perm b)]) \<or> (\<exists>e. evs = [(0, on_error e)])"
proof (cases evs)
  case Nil
  then show ?thesis by simp
next
  case (Cons f fs)
  obtain k r where f: "f = (k, r)" by (cases f)
  let ?w = "snd (checkPermission permission PermissionsAndroid)"
  have "protocol [0] fs (fire (0, r) ?w) \<longleftrightarrow> fs = []" if "accepts (Settle_pair 0) r"
    using that
    by (intro protocol_exhausted) (auto simp: accepts_Settle_pair bridge_defs)
  then show ?thesis
    using Cons f by (auto simp: accepts_Settle_pair check_start)
qed

lemma protocol_request:
  "protocol [] evs (snd (requestPermission permission PermissionsAndroid)) \<longleftrightarrow>
     evs = [] \<or> (\<exists>perm b. evs = [(0, on_result perm b)]) \<or> (\<exists>e. evs = [(0, on_error e)])"
proof (cases evs)
  case Nil
  then show ?thesis by simp
next
  case (Cons f fs)
  obtain k r where f: "f = (k, r)" by (cases f)
  let ?w = "snd (requestPermission permission PermissionsAndroid)"
  have "protocol [0] fs (fire (0, r) ?w) \<longleftrightarrow> fs = []" if "accepts (Settle_pair 0) r"
    using that
    by (intro protocol_exhausted) (auto simp: accepts_Settle_pair bridge_defs)
  then show ?thesis
    using Cons f by (auto simp: accepts_Settle_pair request_start)
qed

lemma settled_iff_answered:
  assumes "protocol [] evs (snd (call op permission PermissionsAndroid))"
  shows "outcome (after (call op permission PermissionsAndroid) evs) \<noteq> None
     \<longleftrightarrow> all_answered evs (snd (after (call op permission PermissionsAndroid) evs))"
proof (cases op)
  case CheckPermission
  with assms have "evs = [] \<or> (\<exists>perm b. evs = [(0, on_result perm b)]) \<or> (\<exists>e. evs = [(0, on_error e)])"
    by (simp add: protocol_check)
  then show ?thesis
    unfolding CheckPermission
    by (elim disjE exE) (simp_all add: observe_defs bridge_defs all_answered_def)
next
  case RequestPermission
  with assms have "evs = [] \<or> (\<exists>perm b. evs = [(0, on_result perm b)]) \<or> (\<exists>e. evs = [(0, on_error e)])"
    by (simp add: protocol_request)
  then show ?thesis
    unfolding RequestPermission
    by (elim disjE exE) (simp_all add: observe_defs bridge_defs all_answered_def)
next
  case (RequestPermissionWithRationale t m)
  with assms have "protocol [] evs (rationale_start permission t m)"
    by (simp add: rationale_start_def)
  then show ?thesis
    unfolding RequestPermissionWithRationale protocol_rationale
    by (elim disjE exE) (simp_all add: observe_defs bridge_defs all_answered_def)
qed

text \<open>
  C8, as the code has it: for every permission identifier and every sequence of callback
  firings, each of the three public operations settles at most once. The history holds no
  settlement of the returned promise while it is pending and exactly one, the outcome, once it
  is settled, so it never both fulfils and fails and never settles twice; an outcome, once
  there, is the outcome after every further firing; and before any callback has fired the
  promise is pending. When the native side keeps its contract, the operation has settled
  exactly once precisely when every call that was given callbacks has been answered: it
  settles with the last answer, and is pending for as long as an answer is outstanding.
\<close>

theorem settles_once:
  "settlements_of (fst (after (call op permission PermissionsAndroid) evs))
      (history (snd (after (call op permission PermissionsAndroid) evs)))
     = (case outcome (after (call op permission PermissionsAndroid) evs) of
          None \<Rightarrow> [] | Some v \<Rightarrow> [v])
   \<and> (outcome (after (call op permission PermissionsAndroid) evs) = Some v \<longrightarrow>
        outcome (after (call op permission PermissionsAndroid) (evs @ later)) = Some v)
   \<and> outcome (after (call op permission PermissionsAndroid) []) = None
   \<and> (protocol [] evs (snd (call op permission PermissionsAndroid)) \<longrightarrow>
        ((\<exists>u. outcome (after (call op permission PermissionsAndroid) evs) = Some u
              \<and> settlements_of (fst (after (call op permission PermissionsAndroid) evs))
                    (history (snd (after (call op permission PermissionsAndroid) evs))) = [u])
         \<longleftrightarrow> all_answered evs (snd (after (call op permission PermissionsAndroid) evs))))"
proof -
  let ?w = "snd (call op permission PermissionsAndroid)"
  have "recorded (run evs ?w)" by (rule recorded_run) (rule recorded_call)
  moreover have ex: "exists_promise 0 (run evs ?w)"
    by (rule exists_promise_run) (rule exists_promise_call)
  ultimately have first: "settlements_of 0 (history (run evs ?w))
      = (case promises (run evs ?w) ! 0 of None \<Rightarrow> [] | Some v \<Rightarrow> [v])"
    by (simp add: recorded_def exists_promise_def)
  have stable: "promises (run later (run evs ?w)) ! 0 = Some v"
    if "promises (run evs ?w) ! 0 = Some v"
  proof -
    from that ex have "settled_with 0 v (run evs ?w)"
      by (simp add: settled_with_def exists_promise_def)
    then have "settled_with 0 v (run later (run evs ?w))" by (rule settled_with_run)
    then show ?thesis by (simp add: settled_with_def)
  qed
  have start: "promises ?w ! 0 = None"
    by (cases op) (simp_all add: bridge_defs)
  have live: "(\<exists>u. promises (run evs ?w) ! 0 = Some u
                  \<and> settlements_of 0 (history (run evs ?w)) = [u])
       \<longleftrightarrow> all_answered evs (run evs ?w)"
    if "protocol [] evs ?w"
  proof -
    from settled_iff_answered [OF that]
    have "promises (run evs ?w) ! 0 \<noteq> None \<longleftrightarrow> all_answered evs (run evs ?w)"
      by (simp add: after_def outcome_def fst_call)
    with first show ?thesis by (cases "promises (run evs ?w) ! 0") simp_all
  qed
  from first stable start live show ?thesis
    by (simp add: after_def outcome_def fst_call run_append)
qed

theorem settles_once_witness:
  "protocol []
     [(0, on_result ''android.permission.CAMERA'' True), (1, on_proceed),
      (2, on_result ''android.permission.CAMERA'' True)]
     (snd (call (RequestPermissionWithRationale ''T'' ''M'') ''android.permission.CAMERA''
        PermissionsAndroid))
   \<and> all_answered
     [(0, on_result ''android.permission.CAMERA'' True), (1, on_proceed),
      (2, on_result ''android.permission.CAMERA'' True)]
     (snd (after (call (RequestPermissionWithRationale ''T'' ''M'') ''android.permission.CAMERA''
        PermissionsAndroid)
       [(0, on_result ''android.permission.CAMERA'' True), (1, on_proceed),
        (2, on_result ''android.permission.CAMERA'' True)]))
   \<and> outcome (after (call (RequestPermissionWithRationale ''T'' ''M'')
        ''android.permission.CAMERA'' PermissionsAndroid)
       [(0, on_result ''android.permission.CAMERA'' True), (1, on_proceed),
        (2, on_result ''android.permission.CAMERA'' True)]) = Some (Fulfilled True)
   \<and> settlements_of 0 (history (snd (after (call (RequestPermissionWithRationale ''T'' ''M'')
        ''android.permission.CAMERA'' PermissionsAndroid)
       [(0, on_result ''android.permission.CAMERA'' True), (1, on_proceed),
        (2, on_result ''android.permission.CAMERA'' True)]))) = [Fulfilled True]
   \<and> outcome (after (call (RequestPermissionWithRationale ''T'' ''M'')
        ''android.permission.CAMERA'' PermissionsAndroid)
       ([(0, on_result ''android.permission.CAMERA'' True), (1, on_proceed),
         (2, on_result ''android.permission.CAMERA'' True)] @ [(2, on_error ''late'')]))
      = Some (Fulfilled True)"
proof -
  let ?evs = "[(0, on_result ''android.permission.CAMERA'' True), (1, on_proceed),
      (2, on_result ''android.permission.CAMERA'' True)]"
  let ?pw = "call (RequestPermissionWithRationale ''T'' ''M'') ''android.permission.CAMERA''
        PermissionsAndroid"
  have p: "protocol [] ?evs (snd ?pw)"
    by (simp add: bridge_defs)
  have a: "all_answered ?evs (snd (after ?pw ?evs))"
    by (simp add: all_answered_def observe_defs bridge_defs)
  have o: "outcome (after ?pw ?evs) = Some (Fulfilled True)"
    by (simp add: observe_defs bridge_defs)
  have f: "fst (after ?pw ?evs) = 0"
    by (simp add: after_def bridge_defs)
  note t = settles_once [of "RequestPermissionWithRationale ''T'' ''M''"
      "''android.permission.CAMERA''" ?evs "Fulfilled True" "[(2, on_error ''late'')]"]
  from t p a obtain u where u: "outcome (after ?pw ?evs) = Some u"
    "settlements_of (fst (after ?pw ?evs)) (history (snd (after ?pw ?evs))) = [u]"
    by blast
  from u(1) o have "u = Fulfilled True" by simp
  with u(2) f have s: "settlements_of 0 (history (snd (after ?pw ?evs))) = [Fulfilled True]"
    by simp
  from t o have l: "outcome (after ?pw (?evs @ [(2, on_error ''late'')])) = Some (Fulfilled True)"
    by blast
  show ?thesis
    by (rule conjI [OF p conjI [OF a conjI [OF o conjI [OF s l]]]])
qed

text \<open>
  C8 as stated, "exactly once", fails when the native side stays silent: with no firing at all
  \<^verbatim>\<open>checkPermission\<close> has not settled, and a rationale dialog that is never answered leaves
  \<^verbatim>\<open>requestPermissionWithRationale\<close> pending.
\<close>

theorem never_answered_stays_pending:
  "outcome (after (call CheckPermission ''android.permission.CAMERA'' PermissionsAndroid) []) = None
   \<and> settlements_of 0
       (history (snd (after (call CheckPermission ''android.permission.CAMERA'' PermissionsAndroid) [])))
      = []
   \<and> outcome (after (call (RequestPermissionWithRationale ''T'' ''M'') ''android.permission.CAMERA''
         PermissionsAndroid) [(0, on_result ''android.permission.CAMERA'' True)]) = None
   \<and> settlements_of 0
       (history (snd (after (call (RequestPermissionWithRationale ''T'' ''M'')
          ''android.permission.CAMERA'' PermissionsAndroid)
          [(0, on_result ''android.permission.CAMERA'' True)])))
      = []"
  by (simp add: observe_defs bridge_defs)

section \<open>Moving a run into another world\<close>

lemma filter_closed:
  "list_all (\<lambda>qp. fst qp < (n::nat)) rs \<Longrightarrow> filter (\<lambda>qp. fst qp = n + p) rs = []"
  by (induction rs) auto

lemma transport_settle:
  assumes "closed_reactions base"
  shows "settle (length (promises base) + p) v (transport c base s w)
           = transport c base s (settle p v w)"
  using assms
  by (simp add: settle_def transport_def closed_reactions_def filter_closed nth_append
      list_update_append filter_map comp_def)

lemma transport_native:
  "native (move_call s nc) (move_callbacks (length (promises base)) s cbs) (transport c base s w)
     = transport c base s (native nc cbs w)"
  by (simp add: native_def transport_def)

lemma transport_new_Promise:
  "new_Promise (transport c base s w)
     = (length (promises base) + fst (new_Promise w), transport c base s (snd (new_Promise w)))"
  by (simp add: new_Promise_def transport_def)

lemma transport_then_catch:
  "then_catch (length (promises base) + q) (length (promises base) + p) (transport c base s w)
     = transport c base s (then_catch q p w)"
  by (simp add: then_catch_def transport_def nth_append split: option.splits)

lemma transport_closure:
  "requestPermission_closure (length (promises base) + p) (s permission) (transport c base s w)
     = transport c base s (requestPermission_closure p permission w)"
proof -
  have "length (promises (transport c base s w)) = length (promises base) + length (promises w)"
    by (simp add: transport_def)
  then show ?thesis
    using transport_native [of s "AndroidPermissions_requestPermission permission" base
        "Settle_pair (length (promises w))" c "snd (new_Promise w)"]
      transport_then_catch [of base "length (promises w)" p c s
        "native (AndroidPermissions_requestPermission permission)
          (Settle_pair (length (promises w))) (snd (new_Promise w))"]
    by (simp add: requestPermission_closure_unfold transport_new_Promise)
qed

lemma transport_dialog:
  "native (DialogManagerAndroid_showAlert opts)
      (Dialog_pair (length (promises base) + p) (s permission)) (transport c base s w)
     = transport c base s (native (DialogManagerAndroid_showAlert opts) (Dialog_pair p permission) w)"
  using transport_native [of s "DialogManagerAndroid_showAlert opts" base "Dialog_pair p permission"]
  by simp

lemma transport_alert:
  "native (DialogManagerAndroid_showAlert opts) Not_callable (transport c base s w)
     = transport c base s (native (DialogManagerAndroid_showAlert opts) Not_callable w)"
  using transport_native [of s "DialogManagerAndroid_showAlert opts" base Not_callable]
  by simp

lemma transport_invoke:
  assumes "closed_reactions base"
  shows "invoke (move_callbacks (length (promises base)) s cbs) r (transport c base s w)
           = transport c base s (invoke cbs r w)"
proof (cases "(cbs, r, w)" rule: invoke.cases)
qed (simp_all add: resolve_def reject_def transport_settle [OF assms] transport_closure
    transport_dialog transport_alert)

lemma transport_drain:
  assumes "closed_reactions base"
  shows "drain (transport c base s w) = transport c base s (drain w)"
proof (induction w rule: drain.induct)
  case (1 w)
  show ?case
  proof (cases "jobs w")
    case Nil
    then have "jobs (transport c base s w) = []" by (simp add: transport_def)
    with Nil show ?thesis by (simp add: drain_Nil)
  next
    case (Cons a js)
    obtain p v where a: "a = (p, v)" by (cases a)
    let ?n = "length (promises base)"
    have j: "jobs (transport c base s w) = (?n + p, v) # map (\<lambda>pv. (?n + fst pv, snd pv)) js"
      using Cons a by (simp add: transport_def)
    have u: "(transport c base s w)\<lparr>jobs := map (\<lambda>pv. (?n + fst pv, snd pv)) js\<rparr>
        = transport c base s (w\<lparr>jobs := js\<rparr>)"
      by (simp add: transport_def)
    have "drain (transport c base s w)
        = drain (settle (?n + p) v (transport c base s (w\<lparr>jobs := js\<rparr>)))"
      by (simp add: drain_Cons [OF j] u)
    also have "\<dots> = drain (transport c base s (settle p v (w\<lparr>jobs := js\<rparr>)))"
      by (simp add: transport_settle [OF assms])
    also have "\<dots> = transport c base s (drain (settle p v (w\<lparr>jobs := js\<rparr>)))"
      using 1 [OF Cons a [symmetric]] .
    also have "\<dots> = transport c base s (drain w)"
      using Cons a by (simp add: drain_Cons)
    finally show ?thesis .
  qed
qed

lemma transport_fire:
  assumes "closed_reactions base"
  shows "fire (length (registered base) + k, r) (transport c base s w)
           = transport c base s (fire (k, r) w)"
proof (cases "k < length (registered w)")
  case True
  then have "registered (transport c base s w) ! (length (registered base) + k)
      = move_callbacks (length (promises base)) s (registered w ! k)"
    by (simp add: transport_def nth_append)
  moreover have "length (registered (transport c base s w))
      = length (registered base) + length (registered w)"
    by (simp add: transport_def)
  ultimately show ?thesis
    using True by (simp add: fire_def transport_invoke [OF assms] transport_drain [OF assms])
next
  case False
  moreover have "length (registered (transport c base s w))
      = length (registered base) + length (registered w)"
    by (simp add: transport_def)
  ultimately show ?thesis by (simp add: fire_def)
qed

lemma transport_run:
  assumes "closed_reactions base"
  shows "run (shift (length (registered base)) evs) (transport c base s w)
           = transport c base s (run evs w)"
proof (induction evs arbitrary: w)
  case Nil
  then show ?case by (simp add: shift_def)
next
  case (Cons f evs)
  obtain k r where f: "f = (k, r)" by (cases f)
  have "run (shift (length (registered base)) (f # evs)) (transport c base s w)
      = run (shift (length (registered base)) evs)
          (fire (length (registered base) + k, r) (transport c base s w))"
    by (simp add: shift_def f)
  also have "\<dots> = transport c base s (run evs (fire (k, r) w))"
    by (simp add: transport_fire [OF assms] Cons.IH)
  finally show ?case by (simp add: f)
qed

lemma move_call_id: "move_call (\<lambda>x. x) c = c"
  by (cases c) simp_all

lemma move_callbacks_id: "move_callbacks 0 (\<lambda>x. x) cbs = cbs"
  by (cases cbs) simp_all

lemma move_effect_id: "move_effect 0 (\<lambda>x. x) e = e"
  by (cases e) (simp_all add: move_call_id)

lemma move_effect_rename: "move_effect 0 (\<lambda>x. i) e = rename_permission i e"
  by (cases "(i, e)" rule: rename_permission.cases) simp_all

lemma calls_of_move: "calls_of (map (move_effect n (\<lambda>x. x)) es) = calls_of es"
  by (induction es rule: calls_of.induct) (simp_all add: move_call_id)

lemma shift_0: "shift 0 evs = evs"
  by (simp add: shift_def)

lemma transport_no_world_id: "transport c no_world (\<lambda>x. x) w = w\<lparr>PERMISSIONS := c\<rparr>"
proof -
  have "map (move_callbacks 0 (\<lambda>x. x)) xs = xs" for xs
    by (induction xs) (simp_all add: move_callbacks_id)
  moreover have "map (move_effect 0 (\<lambda>x. x)) es = es" for es
    by (induction es) (simp_all add: move_effect_id)
  ultimately show ?thesis
    by (simp add: transport_def no_world_def)
qed

lemma closed_no_world: "closed_reactions no_world"
  by (simp add: closed_reactions_def no_world_def)

lemma registered_no_world: "registered no_world = []"
  by (simp add: no_world_def)

section \<open>The catalog and the identifier are passed through\<close>

lemma run_catalog: "run evs (w\<lparr>PERMISSIONS := c\<rparr>) = (run evs w)\<lparr>PERMISSIONS := c\<rparr>"
  using transport_run [OF closed_no_world, of evs c "\<lambda>x. x" w]
  by (simp add: transport_no_world_id registered_no_world shift_0)

lemma call_catalog:
  "call op permission (w\<lparr>PERMISSIONS := c\<rparr>)
     = (fst (call op permission w), (snd (call op permission w))\<lparr>PERMISSIONS := c\<rparr>)"
  by (cases op) (simp_all add: bridge_defs)

lemma PERMISSIONS_run: "PERMISSIONS w = c \<Longrightarrow> PERMISSIONS (run evs w) = c"
  by (rule run_preserves [where P = "\<lambda>w. PERMISSIONS w = c"])
    (simp_all add: settle_def native_def new_Promise_def then_catch_def split: option.splits)

lemma PERMISSIONS_call: "PERMISSIONS (snd (call op permission w)) = PERMISSIONS w"
  by (cases op) (simp_all add: bridge_defs)

lemma call_renamed:
  "snd (call op i PermissionsAndroid)
     = transport (PERMISSIONS PermissionsAndroid) no_world (\<lambda>x. i)
         (snd (call op permission PermissionsAndroid))"
  by (cases op) (simp_all add: bridge_defs transport_def no_world_def PermissionsAndroid_def)

text \<open>
  C9: none of the three public operations reads or changes the catalog. In every world and for
  every sequence of firings the catalog after the run is the catalog before it; a run that
  starts from any other catalog \<open>c\<close> is the same run, with \<open>c\<close> as its catalog; and for any two
  identifier strings \<open>permission\<close> and \<open>i\<close>, in the catalog or not, the run for \<open>i\<close> has the
  outcome of the run for \<open>permission\<close> and the same history with \<open>i\<close> in place of
  \<open>permission\<close>: the same control flow, with no check of membership.
\<close>

theorem catalog_untouched:
  "PERMISSIONS (snd (after (call op permission w) evs)) = PERMISSIONS w
   \<and> after (call op permission (w\<lparr>PERMISSIONS := c\<rparr>)) evs
       = (fst (after (call op permission w) evs),
          (snd (after (call op permission w) evs))\<lparr>PERMISSIONS := c\<rparr>)
   \<and> outcome (after (call op i PermissionsAndroid) evs)
       = outcome (after (call op permission PermissionsAndroid) evs)
   \<and> history (snd (after (call op i PermissionsAndroid) evs))
       = map (rename_permission i) (history (snd (after (call op permission PermissionsAndroid) evs)))"
proof -
  have a: "PERMISSIONS (snd (after (call op permission w) evs)) = PERMISSIONS w"
    by (simp add: after_def PERMISSIONS_run PERMISSIONS_call)
  have b: "after (call op permission (w\<lparr>PERMISSIONS := c\<rparr>)) evs
       = (fst (after (call op permission w) evs),
          (snd (after (call op permission w) evs))\<lparr>PERMISSIONS := c\<rparr>)"
    by (simp add: after_def call_catalog run_catalog)
  let ?l = "snd (call op permission PermissionsAndroid)"
  have "run evs (snd (call op i PermissionsAndroid))
      = transport (PERMISSIONS PermissionsAndroid) no_world (\<lambda>x. i) (run evs ?l)"
    using transport_run [OF closed_no_world, of evs "PERMISSIONS PermissionsAndroid" "\<lambda>x. i" ?l]
    by (simp add: call_renamed [of op i permission] registered_no_world shift_0)
  then have c: "promises (run evs (snd (call op i PermissionsAndroid))) = promises (run evs ?l)"
    and d: "history (run evs (snd (call op i PermissionsAndroid)))
        = map (rename_permission i) (history (run evs ?l))"
    by (simp_all add: transport_def no_world_def move_effect_rename)
  from a b c d show ?thesis
    by (simp add: after_def outcome_def fst_call)
qed

section \<open>Determinism\<close>

lemma quiescent_fresh: "quiescent PermissionsAndroid"
  by (simp add: quiescent_def closed_reactions_def)

lemma jobs_drain: "jobs (drain w) = []"
proof (induction w rule: drain.induct)
  case (1 w)
  show ?case
  proof (cases "jobs w")
    case Nil
    then show ?thesis by (simp add: drain_Nil)
  next
    case (Cons a js)
    obtain p v where a: "a = (p, v)" by (cases a)
    from 1 [OF Cons a [symmetric]] Cons a show ?thesis by (simp add: drain_Cons)
  qed
qed

lemma closed_reactions_settle: "closed_reactions w \<Longrightarrow> closed_reactions (settle p v w)"
  by (simp add: closed_reactions_def settle_def)

lemma closed_reactions_jobs: "closed_reactions (w\<lparr>jobs := js\<rparr>) = closed_reactions w"
  by (simp add: closed_reactions_def)

lemma closed_reactions_invoke: "closed_reactions w \<Longrightarrow> closed_reactions (invoke cbs r w)"
proof (cases "(cbs, r, w)" rule: invoke.cases)
qed (auto simp: bridge_defs closed_reactions_def nth_append list_all_iff)

lemma quiescent_fire: "quiescent w \<Longrightarrow> quiescent (fire f w)"
proof (cases "fst f < length (registered w)")
  case True
  assume "quiescent w"
  then have "closed_reactions (invoke (registered w ! fst f) (snd f) w)"
    by (simp add: quiescent_def closed_reactions_invoke)
  then have "closed_reactions (drain (invoke (registered w ! fst f) (snd f) w))"
    by (rule drain_preserves [where P = closed_reactions, rotated 2])
      (simp_all add: closed_reactions_settle closed_reactions_jobs)
  with True show ?thesis by (simp add: quiescent_def fire_def jobs_drain)
next
  case False
  assume "quiescent w"
  with False show ?thesis by (simp add: fire_def)
qed

lemma quiescent_run: "quiescent w \<Longrightarrow> quiescent (run evs w)"
  by (induction evs arbitrary: w) (simp_all add: quiescent_fire)

lemma quiescent_call: "quiescent w \<Longrightarrow> quiescent (snd (call op permission w))"
  by (cases op) (simp_all add: quiescent_def closed_reactions_def bridge_defs list_all_iff less_Suc_eq)

lemma call_transport:
  assumes "jobs w = []"
  shows "call op permission w
     = (length (promises w) + fst (call op permission PermissionsAndroid),
        transport (PERMISSIONS w) w (\<lambda>x. x) (snd (call op permission PermissionsAndroid)))"
  using assms by (cases op) (simp_all add: bridge_defs transport_def)

lemma run_in_world:
  assumes "quiescent w"
  shows "outcome (after (call op permission w) (shift (length (registered w)) evs))
           = outcome (after (call op permission PermissionsAndroid) evs)"
    and "new_calls w (after (call op permission w) (shift (length (registered w)) evs))
           = calls (snd (after (call op permission PermissionsAndroid) evs))"
proof -
  let ?l = "snd (call op permission PermissionsAndroid)"
  from assms have j: "jobs w = []" and c: "closed_reactions w"
    by (simp_all add: quiescent_def)
  have r: "run (shift (length (registered w)) evs) (snd (call op permission w))
      = transport (PERMISSIONS w) w (\<lambda>x. x) (run evs ?l)"
    using transport_run [OF c, of evs "PERMISSIONS w" "\<lambda>x. x" ?l]
    by (simp add: call_transport [OF j])
  have "promises (transport (PERMISSIONS w) w (\<lambda>x. x) (run evs ?l)) ! length (promises w)
      = promises (run evs ?l) ! 0"
    by (simp add: transport_def nth_append)
  then show "outcome (after (call op permission w) (shift (length (registered w)) evs))
           = outcome (after (call op permission PermissionsAndroid) evs)"
    using r by (simp add: after_def outcome_def fst_call call_transport [OF j])
  have "calls (transport (PERMISSIONS w) w (\<lambda>x. x) (run evs ?l)) = calls w @ calls (run evs ?l)"
    by (simp add: calls_def transport_def calls_of_append calls_of_move)
  then show "new_calls w (after (call op permission w) (shift (length (registered w)) evs))
           = calls (snd (after (call op permission PermissionsAndroid) evs))"
    using r by (simp add: new_calls_def after_def)
qed

text \<open>
  C10: each public operation is deterministic. Two runs of the same operation with the same
  arguments, started in any two quiescent worlds (the fresh instance, or the instance after
  any earlier calls), whose native calls are given the same responses, have the same outcome
  and issue the same sequence of native calls with the same arguments. The responses \<open>evs\<close>
  name the calls of the operation itself, counted from 0; \<open>shift\<close> turns them into the numbers
  those calls have in each world.
\<close>

theorem same_responses_same_run:
  assumes "quiescent w1" and "quiescent w2"
  shows "outcome (after (call op permission w1) (shift (length (registered w1)) evs))
           = outcome (after (call op permission w2) (shift (length (registered w2)) evs))
     \<and> new_calls w1 (after (call op permission w1) (shift (length (registered w1)) evs))
           = new_calls w2 (after (call op permission w2) (shift (length (registered w2)) evs))"
  by (simp add: run_in_world [OF assms(1)] run_in_world [OF assms(2)])

theorem same_responses_same_run_witness:
  "quiescent PermissionsAndroid
   \<and> quiescent (snd (after (checkPermission ''android.permission.CAMERA'' PermissionsAndroid)
        [(0, on_result ''android.permission.CAMERA'' True)]))
   \<and> outcome (after (call RequestPermission ''android.permission.READ_CONTACTS''
          (snd (after (checkPermission ''android.permission.CAMERA'' PermissionsAndroid)
             [(0, on_result ''android.permission.CAMERA'' True)])))
        (shift (length (registered
            (snd (after (checkPermission ''android.permission.CAMERA'' PermissionsAndroid)
               [(0, on_result ''android.permission.CAMERA'' True)]))))
           [(0, on_result ''android.permission.READ_CONTACTS'' False)]))
      = outcome (after (call RequestPermission ''android.permission.READ_CONTACTS'' PermissionsAndroid)
          (shift (length (registered PermissionsAndroid))
             [(0, on_result ''android.permission.READ_CONTACTS'' False)]))
   \<and> outcome (after (call RequestPermission ''android.permission.READ_CONTACTS'' PermissionsAndroid)
          (shift (length (registered PermissionsAndroid))
             [(0, on_result ''android.permission.READ_CONTACTS'' False)]))
      = Some (Fulfilled False)"
proof -
  let ?w = "snd (after (checkPermission ''android.permission.CAMERA'' PermissionsAndroid)
        [(0, on_result ''android.permission.CAMERA'' True)])"
  have q1: "quiescent PermissionsAndroid" by (rule quiescent_fresh)
  have q2: "quiescent ?w"
    by (simp add: quiescent_def closed_reactions_def observe_defs bridge_defs)
  have o: "outcome (after (call RequestPermission ''android.permission.READ_CONTACTS'' PermissionsAndroid)
          (shift (length (registered PermissionsAndroid))
             [(0, on_result ''android.permission.READ_CONTACTS'' False)]))
      = Some (Fulfilled False)"
    by (simp add: observe_defs bridge_defs shift_def)
  from same_responses_same_run [OF q2 q1, of RequestPermission
      "''android.permission.READ_CONTACTS''"
      "[(0, on_result ''android.permission.READ_CONTACTS'' False)]"] q1 q2 o
  show ?thesis by simp
qed

end
